theory Spec2Isabelle
  imports Main "HOL-Library.Sublist"
begin

section \<open>The downloads organizer (scripts/organize\_downloads.py)\<close>

text \<open>
  A shallow embedding of \<^verbatim>\<open>get_target_folder\<close> and \<^verbatim>\<open>organize_downloads\<close>.
  File names are character lists over ASCII; a path is the list of its components, so that
  \<^verbatim>\<open>p / name\<close> appends one component.  The home directory \<^verbatim>\<open>Path.home()\<close> is a
  parameter of the model.
\<close>

subsection \<open>Strings\<close>

text \<open>\<^verbatim>\<open>str.lower\<close>, on ASCII: the letters A to Z move to a to z, every other character stays.\<close>

definition lower_char :: "char \<Rightarrow> char" where
  "lower_char c =
     (case map_of (zip ''ABCDEFGHIJKLMNOPQRSTUVWXYZ'' ''abcdefghijklmnopqrstuvwxyz'') c of
        Some l \<Rightarrow> l
      | None \<Rightarrow> c)"

definition lower :: "string \<Rightarrow> string" where
  "lower s = map lower_char s"

text \<open>\<^verbatim>\<open>keyword in text\<close>: the keyword occurs in the text as a contiguous run.\<close>

fun contains :: "string \<Rightarrow> string \<Rightarrow> bool" where
  "contains k [] = (k = [])"
| "contains k (c # cs) = (prefix k (c # cs) \<or> contains k cs)"

text \<open>\<^verbatim>\<open>str.rfind\<close> for one character: the index of its last occurrence, if any.\<close>

definition rfind :: "char \<Rightarrow> string \<Rightarrow> nat option" where
  "rfind c s =
     (let j = length (takeWhile (\<lambda>x. x \<noteq> c) (rev s))
      in if j = length s then None else Some (length s - 1 - j))"

text \<open>
  \<^verbatim>\<open>PurePath.suffix\<close> applied to the final component (Python 3.11 to 3.13):
  \<^verbatim>\<open>i = name.rfind('.')\<close>; the suffix is \<^verbatim>\<open>name[i:]\<close> when \<^verbatim>\<open>0 < i < len(name) - 1\<close>
  and the empty string otherwise.
\<close>

definition suffix_of :: "string \<Rightarrow> string" where
  "suffix_of name =
     (case rfind CHR ''.'' name of
        None \<Rightarrow> []
      | Some i \<Rightarrow> if 0 < i \<and> i + 1 < length name then drop i name else [])"

text \<open>\<^verbatim>\<open>s.strip(".")\<close>: leading and trailing dots are removed.\<close>

definition strip_dots :: "string \<Rightarrow> string" where
  "strip_dots s =
     rev (dropWhile (\<lambda>x. x = CHR ''.'') (rev (dropWhile (\<lambda>x. x = CHR ''.'') s)))"

subsection \<open>The rule tables\<close>

type_synonym path = "string list"

definition DOWNLOADS_DIR :: "path \<Rightarrow> path" where
  "DOWNLOADS_DIR home = home @ [''Downloads'']"

text \<open>Both dictionaries are association lists in declaration order, which is the order
  in which \<^verbatim>\<open>dict.items()\<close> yields them.\<close>

definition CATEGORY_MAP :: "(string \<times> string) list" where
  "CATEGORY_MAP =
     [(''pdf'', ''PDFs''),
      (''pptx'', ''Presentations''),
      (''mp4'', ''Videos''),
      (''m4a'', ''Audio''),
      (''png'', ''Images''),
      (''jpg'', ''Images''),
      (''jpeg'', ''Images''),
      (''webp'', ''Images''),
      (''heic'', ''Images''),
      (''dmg'', ''Installers''),
      (''zip'', ''Archives''),
      (''rar'', ''Archives''),
      (''csv'', ''Data''),
      (''xlsx'', ''Data''),
      (''json'', ''Data''),
      (''srt'', ''Subtitles''),
      (''ics'', ''Calendars''),
      (''ipynb'', ''Notebooks''),
      (''tsx'', ''Code''),
      (''html'', ''Web''),
      (''txt'', ''Text'')]"

definition KEYWORD_FOLDERS :: "(string \<times> string) list" where
  "KEYWORD_FOLDERS =
     [(''invoice'', ''Invoices''),
      (''receipt'', ''Invoices''),
      (''fatura'', ''Invoices''),
      (''anki'', ''Anki''),
      (''course'', ''Courses''),
      (''blueprint'', ''Courses''),
      (''ai'', ''AI''),
      (''langgraph'', ''AI''),
      (''agent'', ''AI''),
      (''prompt'', ''AI''),
      (''filmmaking'', ''Media Projects''),
      (''presentation'', ''Presentations'')]"

subsection \<open>Classification\<close>

text \<open>The keyword loop: the folder of the first rule, in declaration order, whose keyword
  occurs in the lower-cased name (the \<^verbatim>\<open>return\<close> inside the loop); \<open>None\<close> when the
  loop falls through.\<close>

fun keyword_loop :: "(string \<times> string) list \<Rightarrow> string \<Rightarrow> string option" where
  "keyword_loop [] lower_name = None"
| "keyword_loop ((keyword, folder) # rules) lower_name =
     (if contains keyword lower_name then Some folder else keyword_loop rules lower_name)"

text \<open>\<^verbatim>\<open>get_target_folder(file)\<close>; the file is given by \<^verbatim>\<open>file.name\<close>, the only
  attribute the function reads (\<^verbatim>\<open>file.suffix\<close> is computed from it).\<close>

definition get_target_folder :: "path \<Rightarrow> string \<Rightarrow> path" where
  "get_target_folder home name =
     (let lower_name = lower name in
      case keyword_loop KEYWORD_FOLDERS lower_name of
        Some folder \<Rightarrow> DOWNLOADS_DIR home @ [folder]
      | None \<Rightarrow>
          (let ext = strip_dots (lower (suffix_of name)) in
           case map_of CATEGORY_MAP ext of
             Some folder \<Rightarrow> DOWNLOADS_DIR home @ [folder]
           | None \<Rightarrow> DOWNLOADS_DIR home @ [''Misc'']))"

subsection \<open>The file system below the downloads directory\<close>

text \<open>
  Every path the driver touches is \<^verbatim>\<open>DOWNLOADS_DIR / a\<close> or \<^verbatim>\<open>DOWNLOADS_DIR / a / b\<close>.
  The state is the tree below \<^verbatim>\<open>DOWNLOADS_DIR\<close>: a map from the names of its children to
  nodes, a node being a regular file with its content or a directory with its own children.
  Symbolic links are outside the model.
\<close>

datatype node = File string | Dir "string \<Rightarrow> node option"

type_synonym tree = "string \<Rightarrow> node option"

text \<open>
  What the platform decides is a parameter of a run: the result of listing the downloads
  directory (an error, or the names in the platform's order), the error \<^verbatim>\<open>os.mkdir\<close>
  raises when asked to create an absent directory (if any), and the course that
  \<^verbatim>\<open>shutil.move\<close> takes for each file.
\<close>

datatype move_course =
    Renamed
  | Copied
  | CopyRefused string
  | CopyCutShort nat string
  | UnlinkRefused string

record env =
  listdir :: "string + string list"
  mkdir_error :: "string \<Rightarrow> string option"
  move_course :: "string \<Rightarrow> move_course"

text \<open>\<^verbatim>\<open>file.is_file()\<close> for a child of the downloads directory.\<close>

definition is_file :: "tree \<Rightarrow> string \<Rightarrow> bool" where
  "is_file t name = (case t name of Some (File content) \<Rightarrow> True | _ \<Rightarrow> False)"

text \<open>
  \<^verbatim>\<open>target_folder.mkdir(exist_ok=True)\<close>: an existing directory is left as it is, an
  existing regular file raises \<^verbatim>\<open>FileExistsError\<close>, an absent directory is created
  empty unless \<^verbatim>\<open>os.mkdir\<close> raises.
\<close>

definition mkdir :: "env \<Rightarrow> string \<Rightarrow> tree \<Rightarrow> string + tree" where
  "mkdir e folder t =
     (case t folder of
        Some (Dir d) \<Rightarrow> Inr t
      | Some (File content) \<Rightarrow> Inl ''FileExistsError''
      | None \<Rightarrow>
          (case mkdir_error e folder of
             Some err \<Rightarrow> Inl err
           | None \<Rightarrow> Inr (t(folder \<mapsto> Dir Map.empty))))"

text \<open>\<^verbatim>\<open>target_path.exists()\<close> for \<^verbatim>\<open>target_path = target_folder / file.name\<close>.\<close>

definition exists_in :: "tree \<Rightarrow> string \<Rightarrow> string \<Rightarrow> bool" where
  "exists_in t folder name =
     (case t folder of Some (Dir d) \<Rightarrow> d name \<noteq> None | _ \<Rightarrow> False)"

text \<open>Writing a node at \<^verbatim>\<open>folder / name\<close>.\<close>

definition put :: "tree \<Rightarrow> string \<Rightarrow> string \<Rightarrow> node \<Rightarrow> tree" where
  "put t folder name n =
     (case t folder of Some (Dir d) \<Rightarrow> t(folder \<mapsto> Dir (d(name \<mapsto> n))) | _ \<Rightarrow> t)"

text \<open>
  \<^verbatim>\<open>shutil.move(str(file), target_path)\<close> for a regular file and an absent target, after
  the standard library: \<^verbatim>\<open>os.rename\<close> is tried first; when it raises \<^verbatim>\<open>OSError\<close> the
  file is copied to the target and the source is then unlinked.  The copy can be refused
  before the target is created or be cut short after some characters, and the unlink can
  be refused after a complete copy; each of these raises.  The result is the exception
  raised (if any) and the tree left behind.
\<close>

definition shutil_move :: "move_course \<Rightarrow> string \<Rightarrow> string \<Rightarrow> tree \<Rightarrow> string option \<times> tree" where
  "shutil_move course name folder t =
     (case t name of
        Some (File content) \<Rightarrow>
          (case course of
             Renamed \<Rightarrow> (None, put (t(name := None)) folder name (File content))
           | Copied \<Rightarrow> (None, put (t(name := None)) folder name (File content))
           | CopyRefused err \<Rightarrow> (Some err, t)
           | CopyCutShort n err \<Rightarrow> (Some err, put t folder name (File (take n content)))
           | UnlinkRefused err \<Rightarrow> (Some err, put t folder name (File content)))
      | _ \<Rightarrow> (Some ''FileNotFoundError'', t))"

subsection \<open>The driver\<close>

text \<open>The lines \<^verbatim>\<open>print\<close> receives, by format string, with the values interpolated.\<close>

datatype line =
    Organizing path
  | AlreadyExists path
  | Moved string string
  | ErrorMoving string string

text \<open>
  One pass through the body of the \<^verbatim>\<open>for\<close> loop: the exception that leaves the loop
  (if any), the lines printed and the tree afterwards.  \<^verbatim>\<open>mkdir\<close> stands outside the
  \<^verbatim>\<open>try\<close>, so what it raises leaves the loop; what \<^verbatim>\<open>shutil.move\<close> raises is caught.
\<close>

definition loop_body :: "env \<Rightarrow> path \<Rightarrow> string \<Rightarrow> tree \<Rightarrow> string option \<times> line list \<times> tree" where
  "loop_body e home name t =
     (if is_file t name then
        (let target_folder = get_target_folder home name in
         case mkdir e (last target_folder) t of
           Inl err \<Rightarrow> (Some err, [], t)
         | Inr t1 \<Rightarrow>
             (let target_path = target_folder @ [name] in
              if exists_in t1 (last target_folder) name
              then (None, [AlreadyExists target_path], t1)
              else
                (case shutil_move (move_course e name) name (last target_folder) t1 of
                   (None, t2) \<Rightarrow> (None, [Moved name (last target_folder)], t2)
                 | (Some err, t2) \<Rightarrow> (None, [ErrorMoving name err], t2))))
      else (None, [], t))"

datatype status = Completed | Raised string

fun for_loop :: "env \<Rightarrow> path \<Rightarrow> string list \<Rightarrow> tree \<Rightarrow> status \<times> line list \<times> tree" where
  "for_loop e home [] t = (Completed, [], t)"
| "for_loop e home (name # names) t =
     (case loop_body e home name t of
        (Some err, ls, t1) \<Rightarrow> (Raised err, ls, t1)
      | (None, ls, t1) \<Rightarrow>
          (case for_loop e home names t1 of (st, ls2, t2) \<Rightarrow> (st, ls @ ls2, t2)))"

text \<open>\<^verbatim>\<open>organize_downloads()\<close>: how the call ends, everything printed, and the tree left.\<close>

definition organize_downloads :: "env \<Rightarrow> path \<Rightarrow> tree \<Rightarrow> status \<times> line list \<times> tree" where
  "organize_downloads e home t =
     (case listdir e of
        Inl err \<Rightarrow> (Raised err, [Organizing (DOWNLOADS_DIR home)], t)
      | Inr names \<Rightarrow>
          (case for_loop e home names t of
             (st, ls, t1) \<Rightarrow> (st, Organizing (DOWNLOADS_DIR home) # ls, t1)))"

subsection \<open>Notions used to state the properties\<close>

text \<open>The node at \<^verbatim>\<open>folder / name\<close>, if any.\<close>

definition node_at :: "tree \<Rightarrow> string \<Rightarrow> string \<Rightarrow> node option" where
  "node_at t folder name = (case t folder of Some (Dir d) \<Rightarrow> d name | _ \<Rightarrow> None)"

text \<open>
  What a move that raises leaves at the target path, for a source of the given content:
  nothing when the copy is refused at the start, the characters written when the copy is
  cut short, the whole content when only the removal of the source is refused.
\<close>

definition left_behind :: "move_course \<Rightarrow> string \<Rightarrow> string option" where
  "left_behind course content =
     (case course of
        CopyCutShort k msg \<Rightarrow> Some (take k content)
      | UnlinkRefused msg \<Rightarrow> Some content
      | _ \<Rightarrow> None)"

text \<open>
  The line to expect for a regular file of the listing, told from the tree before the run
  and from the course its move takes: the conflict line naming the target path when that
  path exists, else the line of the move when the move goes through, else the error line
  with the text of the exception.
\<close>

definition outcome_line :: "env \<Rightarrow> path \<Rightarrow> tree \<Rightarrow> string \<Rightarrow> line" where
  "outcome_line e home t name =
     (if node_at t (last (get_target_folder home name)) name \<noteq> None
      then AlreadyExists (get_target_folder home name @ [name])
      else
        (case move_course e name of
           Renamed \<Rightarrow> Moved name (last (get_target_folder home name))
         | Copied \<Rightarrow> Moved name (last (get_target_folder home name))
         | CopyRefused err \<Rightarrow> ErrorMoving name err
         | CopyCutShort k err \<Rightarrow> ErrorMoving name err
         | UnlinkRefused err \<Rightarrow> ErrorMoving name err))"

text \<open>
  The text of a printed line, as the format strings of the source build it;
  \<^verbatim>\<open>str(path)\<close> is the POSIX form of an absolute path.
\<close>

definition str_path :: "path \<Rightarrow> string" where
  "str_path p = concat (map (\<lambda>component. ''/'' @ component) p)"

fun text_of :: "line \<Rightarrow> string" where
  "text_of (Organizing d) = ''[bold yellow]Organizing files in '' @ str_path d @ ''...[/bold yellow]''"
| "text_of (AlreadyExists p) = ''[red]File already exists:[/red] '' @ str_path p"
| "text_of (Moved name folder) = ''[green]Moved:[/green] '' @ name @ '' -> '' @ folder"
| "text_of (ErrorMoving name err) = ''[red]Error moving '' @ name @ '':[/red] '' @ err"

subsection \<open>Sample runs\<close>

text \<open>
  The downloads directory holds three regular files and the folder \<^verbatim>\<open>Invoices\<close>, which
  already holds a file named \<^verbatim>\<open>invoice_march.pdf\<close>.  The move of \<^verbatim>\<open>plan.pdf\<close> falls back
  to copying, and the copy is cut short after two characters.
\<close>

definition demo_home :: path where
  "demo_home = [''home'', ''user'']"

definition demo_env :: env where
  "demo_env =
     \<lparr> listdir = Inr [''invoice_march.pdf'', ''photo.png'', ''Invoices'', ''plan.pdf''],
       mkdir_error = (\<lambda>folder. None),
       move_course = (\<lambda>name. if name = ''plan.pdf''
                              then CopyCutShort 2 ''No space left on device'' else Renamed) \<rparr>"

definition demo_tree :: tree where
  "demo_tree =
     [''invoice_march.pdf'' \<mapsto> File ''march'',
      ''photo.png'' \<mapsto> File ''pixels'',
      ''plan.pdf'' \<mapsto> File ''plan'',
      ''Invoices'' \<mapsto> Dir [''invoice_march.pdf'' \<mapsto> File ''earlier'']]"

text \<open>The same directory when no new folder can be created in it.\<close>

definition blocked_env :: env where
  "blocked_env = demo_env\<lparr>mkdir_error := (\<lambda>folder. Some ''Permission denied'')\<rparr>"

text \<open>The same directory listed with \<^verbatim>\<open>plan.pdf\<close> first.\<close>

definition plan_first_env :: env where
  "plan_first_env = demo_env\<lparr>listdir := Inr [''plan.pdf'', ''photo.png'']\<rparr>"

section \<open>Properties of the classification\<close>

subsection \<open>Occurrence of a keyword, and the keyword loop\<close>

lemma contains_iff_sublist: "contains k s \<longleftrightarrow> sublist k s"
  by (induction s) (auto simp: sublist_Cons_right)

lemma contains_iff: "contains k s \<longleftrightarrow> (\<exists>p q. s = p @ k @ q)"
  by (simp add: contains_iff_sublist sublist_def)

lemma keyword_loop_skip:
  "\<forall>(k, f) \<in> set before. \<not> contains k s \<Longrightarrow>
   keyword_loop (before @ rules) s = keyword_loop rules s"
  by (induction before) auto

lemma keyword_loop_None: "keyword_loop rules s = None \<longleftrightarrow> (\<forall>(k, f) \<in> set rules. \<not> contains k s)"
  by (induction rules) (auto split: if_splits)

lemma keyword_loop_Some:
  "keyword_loop rules s = Some f \<Longrightarrow> \<exists>k. (k, f) \<in> set rules \<and> contains k s"
  by (induction rules) (auto split: if_splits)

lemma keyword_loop_first:
  assumes "rules = before @ (k, f) # after"
    and "\<forall>(k', f') \<in> set before. \<not> contains k' s"
    and "contains k s"
  shows "keyword_loop rules s = Some f"
  using assms by (simp add: keyword_loop_skip)

lemma prefix_cut: "prefix k (u @ c # v) \<Longrightarrow> c \<notin> set k \<Longrightarrow> prefix k u"
  by (auto simp: prefix_append prefix_Cons)

lemma no_straddle:
  assumes "c \<notin> set k" "contains k (a @ c # b)"
  shows "contains k a \<or> contains k b"
  using assms
proof (induction a)
  case Nil
  then show ?case by (cases k) auto
next
  case (Cons x a)
  then show ?case using prefix_cut [of k "x # a" c b] by auto
qed

lemma lower_char_dot: "lower_char c = CHR ''.'' \<longleftrightarrow> c = CHR ''.''"
  unfolding lower_char_def
  by (auto split: option.splits if_splits)


lemma keywords_no_dot: "\<forall>(k, f) \<in> set KEYWORD_FOLDERS. CHR ''.'' \<notin> set k"
  by (simp add: KEYWORD_FOLDERS_def)

lemma set_lower_dot: "CHR ''.'' \<in> set (lower s) \<longleftrightarrow> CHR ''.'' \<in> set s"
proof -
  have "\<And>x. (CHR ''.'' = lower_char x) = (x = CHR ''.'')"
    using lower_char_dot by metis
  then show ?thesis by (auto simp: lower_def image_iff)
qed

lemma rfind_dot:
  assumes "CHR ''.'' \<notin> set ext"
  shows "rfind CHR ''.'' (stem @ ''.'' @ ext) = Some (length stem)"
proof -
  have "takeWhile (\<lambda>x. x \<noteq> CHR ''.'') (rev ext @ CHR ''.'' # rev stem) = rev ext"
    using assms by (subst takeWhile_append2) auto
  then show ?thesis by (simp add: rfind_def Let_def)
qed

lemma suffix_of_split:
  assumes "stem \<noteq> []" "ext \<noteq> []" "CHR ''.'' \<notin> set ext"
  shows "suffix_of (stem @ ''.'' @ ext) = ''.'' @ ext"
  using assms rfind_dot [of ext stem] by (simp add: suffix_of_def)

lemma strip_dots_clean:
  assumes "CHR ''.'' \<notin> set s"
  shows "strip_dots (''.'' @ s) = s"
proof -
  have "dropWhile (\<lambda>x. x = CHR ''.'') s = s" using assms by (cases s) auto
  moreover have "dropWhile (\<lambda>x. x = CHR ''.'') (rev s) = rev s"
    using assms by (cases "rev s") (auto simp: rev_eq_Cons_iff)
  ultimately show ?thesis by (simp add: strip_dots_def)
qed

subsection \<open>The claims about \<^verbatim>\<open>get_target_folder\<close>\<close>

text \<open>C1. If some configured keyword occurs in the lower-cased name of a file, then
  \<^verbatim>\<open>get_target_folder\<close> returns the folder of a keyword rule whose keyword occurs in that
  name, whatever the suffix of the name is: the extension table is not reached.\<close>

theorem keyword_rule_decides:
  assumes "(k, f) \<in> set KEYWORD_FOLDERS"
    and "lower name = p @ k @ q"
  shows "\<exists>k' f' p' q'. (k', f') \<in> set KEYWORD_FOLDERS \<and> lower name = p' @ k' @ q' \<and>
           get_target_folder home name = DOWNLOADS_DIR home @ [f']"
proof -
  have "contains k (lower name)"
    using assms(2) contains_iff by blast
  with assms(1) have "keyword_loop KEYWORD_FOLDERS (lower name) \<noteq> None"
    by (auto simp: keyword_loop_None)
  then obtain f' where f': "keyword_loop KEYWORD_FOLDERS (lower name) = Some f'"
    by auto
  then obtain k' where k': "(k', f') \<in> set KEYWORD_FOLDERS" "contains k' (lower name)"
    using keyword_loop_Some by blast
  from k'(2) obtain p' q' where "lower name = p' @ k' @ q'"
    using contains_iff by blast
  moreover have "get_target_folder home name = DOWNLOADS_DIR home @ [f']"
    using f' by (simp add: get_target_folder_def)
  ultimately show ?thesis using k'(1) by blast
qed

theorem keyword_rule_decides_witness:
  "(''invoice'', ''Invoices'') \<in> set KEYWORD_FOLDERS \<and>
   lower ''Invoice_2024.PNG'' = [] @ ''invoice'' @ ''_2024.png'' \<and>
   (\<exists>k' f' p' q'. (k', f') \<in> set KEYWORD_FOLDERS \<and>
      lower ''Invoice_2024.PNG'' = p' @ k' @ q' \<and>
      get_target_folder [''home''] ''Invoice_2024.PNG'' = DOWNLOADS_DIR [''home''] @ [f'])"
proof -
  have h1: "(''invoice'', ''Invoices'') \<in> set KEYWORD_FOLDERS"
    by (simp add: KEYWORD_FOLDERS_def)
  have h2: "lower ''Invoice_2024.PNG'' = [] @ ''invoice'' @ ''_2024.png''"
    by (simp add: lower_def lower_char_def)
  show ?thesis
    using h1 h2 keyword_rule_decides [OF h1 h2, of "[''home'']"] by blast
qed

text \<open>C2. If two configured keywords occur in the lower-cased name, and the first of
  them is the earliest declared rule whose keyword occurs there, then \<^verbatim>\<open>get_target_folder\<close>
  returns the folder of that earliest rule.\<close>

theorem first_declared_keyword_wins:
  assumes "KEYWORD_FOLDERS = before @ (k1, f1) # between @ (k2, f2) # after"
    and "\<forall>(k, f) \<in> set before. \<not> contains k (lower name)"
    and "contains k1 (lower name)"
    and "contains k2 (lower name)"
  shows "get_target_folder home name = DOWNLOADS_DIR home @ [f1]"
proof -
  have "keyword_loop KEYWORD_FOLDERS (lower name) = Some f1"
    using assms(1,2,3) by (rule keyword_loop_first)
  then show ?thesis by (simp add: get_target_folder_def)
qed

theorem first_declared_keyword_wins_witness:
  "get_target_folder [''home''] ''AI_Course_notes.txt'' = DOWNLOADS_DIR [''home''] @ [''Courses'']"
proof -
  have h1: "KEYWORD_FOLDERS =
      [(''invoice'', ''Invoices''), (''receipt'', ''Invoices''), (''fatura'', ''Invoices''),
       (''anki'', ''Anki'')] @ (''course'', ''Courses'') # [(''blueprint'', ''Courses'')] @
      (''ai'', ''AI'') # [(''langgraph'', ''AI''), (''agent'', ''AI''), (''prompt'', ''AI''),
       (''filmmaking'', ''Media Projects''), (''presentation'', ''Presentations'')]"
    by (simp add: KEYWORD_FOLDERS_def)
  have low: "lower ''AI_Course_notes.txt'' = ''ai_course_notes.txt''"
    by (simp add: lower_def lower_char_def)
  have h2: "\<forall>(k, f) \<in> set [(''invoice'', ''Invoices''), (''receipt'', ''Invoices''),
       (''fatura'', ''Invoices''), (''anki'', ''Anki'')]. \<not> contains k (lower ''AI_Course_notes.txt'')"
    unfolding low by simp
  have h3: "contains ''course'' (lower ''AI_Course_notes.txt'')"
    unfolding low by simp
  have h4: "contains ''ai'' (lower ''AI_Course_notes.txt'')"
    unfolding low by simp
  show ?thesis
    using first_declared_keyword_wins [OF h1 h2 h3 h4] .
qed

text \<open>C8. If no configured keyword occurs in the lower-cased name and the lower-cased
  suffix, stripped of dots, is a key of the extension table, then \<^verbatim>\<open>get_target_folder\<close>
  returns the folder the table gives for it.\<close>

theorem extension_rule_applies:
  assumes "\<forall>(k, f) \<in> set KEYWORD_FOLDERS. \<not> contains k (lower name)"
    and "map_of CATEGORY_MAP (strip_dots (lower (suffix_of name))) = Some folder"
  shows "get_target_folder home name = DOWNLOADS_DIR home @ [folder]"
proof -
  have "keyword_loop KEYWORD_FOLDERS (lower name) = None"
    using assms(1) by (simp add: keyword_loop_None)
  then show ?thesis using assms(2) by (simp add: get_target_folder_def)
qed

theorem extension_rule_applies_witness:
  "get_target_folder [''home''] ''Plan.PDF'' = DOWNLOADS_DIR [''home''] @ [''PDFs'']"
proof -
  have low: "lower ''Plan.PDF'' = ''plan.pdf''"
    by (simp add: lower_def lower_char_def)
  have h1: "\<forall>(k, f) \<in> set KEYWORD_FOLDERS. \<not> contains k (lower ''Plan.PDF'')"
    unfolding low by (simp add: KEYWORD_FOLDERS_def)
  have h2: "map_of CATEGORY_MAP (strip_dots (lower (suffix_of ''Plan.PDF''))) = Some ''PDFs''"
    by (simp add: suffix_of_def rfind_def lower_def lower_char_def strip_dots_def CATEGORY_MAP_def)
  show ?thesis
    using extension_rule_applies [OF h1 h2] .
qed

text \<open>C9. If no configured keyword occurs in the lower-cased name and the lower-cased
  suffix, stripped of dots, is no key of the extension table, then \<^verbatim>\<open>get_target_folder\<close>
  returns the folder \<^verbatim>\<open>Misc\<close>.\<close>

theorem fallback_is_Misc:
  assumes "\<forall>(k, f) \<in> set KEYWORD_FOLDERS. \<not> contains k (lower name)"
    and "strip_dots (lower (suffix_of name)) \<notin> fst ` set CATEGORY_MAP"
  shows "get_target_folder home name = DOWNLOADS_DIR home @ [''Misc'']"
proof -
  have "keyword_loop KEYWORD_FOLDERS (lower name) = None"
    using assms(1) by (simp add: keyword_loop_None)
  moreover have "map_of CATEGORY_MAP (strip_dots (lower (suffix_of name))) = None"
    using assms(2) by (simp add: map_of_eq_None_iff)
  ultimately show ?thesis by (simp add: get_target_folder_def)
qed

theorem fallback_is_Misc_witness:
  "get_target_folder [''home''] ''notes.xyz'' = DOWNLOADS_DIR [''home''] @ [''Misc'']"
proof -
  have low: "lower ''notes.xyz'' = ''notes.xyz''"
    by (simp add: lower_def lower_char_def)
  have h1: "\<forall>(k, f) \<in> set KEYWORD_FOLDERS. \<not> contains k (lower ''notes.xyz'')"
    unfolding low by (simp add: KEYWORD_FOLDERS_def)
  have h2: "strip_dots (lower (suffix_of ''notes.xyz'')) \<notin> fst ` set CATEGORY_MAP"
    by (simp add: suffix_of_def rfind_def lower_def lower_char_def strip_dots_def CATEGORY_MAP_def)
  show ?thesis
    using fallback_is_Misc [OF h1 h2] .
qed

text \<open>C10. The keyword is looked for in the whole lower-cased name, extension
  included.  For a name \<^verbatim>\<open>stem.ext\<close> whose stem holds no keyword, while \<^verbatim>\<open>ext\<close> (which
  is what the extension rule would look up) holds one, \<^verbatim>\<open>get_target_folder\<close> returns the
  folder of the earliest declared keyword occurring in \<^verbatim>\<open>ext\<close>; \<^verbatim>\<open>notes.ai\<close> goes to
  \<^verbatim>\<open>AI\<close>.\<close>

theorem keyword_inside_extension:
  assumes "stem \<noteq> []" and "ext \<noteq> []" and "CHR ''.'' \<notin> set ext"
    and "\<forall>(k', f') \<in> set KEYWORD_FOLDERS. \<not> contains k' (lower stem)"
    and "KEYWORD_FOLDERS = before @ (k, f) # after"
    and "\<forall>(k', f') \<in> set before. \<not> contains k' (lower ext)"
    and "contains k (lower ext)"
  shows "strip_dots (lower (suffix_of (stem @ ''.'' @ ext))) = lower ext \<and>
         get_target_folder home (stem @ ''.'' @ ext) = DOWNLOADS_DIR home @ [f]"
proof -
  let ?name = "stem @ ''.'' @ ext"
  have low: "lower ?name = lower stem @ CHR ''.'' # lower ext"
    by (simp add: lower_def lower_char_def)
  have "strip_dots (lower (suffix_of ?name)) = lower ext"
  proof -
    have "lower (suffix_of ?name) = ''.'' @ lower ext"
      using suffix_of_split [OF assms(1,2,3)] by (simp add: lower_def lower_char_def)
    moreover have "CHR ''.'' \<notin> set (lower ext)"
      using assms(3) by (simp add: set_lower_dot)
    ultimately show ?thesis using strip_dots_clean by simp
  qed
  moreover have "keyword_loop KEYWORD_FOLDERS (lower ?name) = Some f"
  proof (rule keyword_loop_first [OF assms(5)])
    show "\<forall>(k', f') \<in> set before. \<not> contains k' (lower ?name)"
    proof (clarify)
      fix k' f'
      assume in_before: "(k', f') \<in> set before" and occ: "contains k' (lower ?name)"
      have "(k', f') \<in> set KEYWORD_FOLDERS"
        using in_before by (simp add: assms(5))
      then have "CHR ''.'' \<notin> set k'" and "\<not> contains k' (lower stem)"
        using keywords_no_dot assms(4) by auto
      then have "contains k' (lower ext)"
        using occ no_straddle [of "CHR ''.''" k' "lower stem" "lower ext"] unfolding low by blast
      then show False using in_before assms(6) by auto
    qed
  next
    obtain p q where "lower ext = p @ k @ q"
      using assms(7) contains_iff by blast
    then have "lower ?name = (lower stem @ CHR ''.'' # p) @ k @ q"
      unfolding low by simp
    then show "contains k (lower ?name)"
      using contains_iff by blast
  qed
  ultimately show ?thesis by (simp add: get_target_folder_def)
qed

theorem keyword_inside_extension_witness:
  "strip_dots (lower (suffix_of (''notes'' @ ''.'' @ ''ai''))) = lower ''ai'' \<and>
   get_target_folder [''home''] (''notes'' @ ''.'' @ ''ai'') = DOWNLOADS_DIR [''home''] @ [''AI'']"
proof -
  have h1: "''notes'' \<noteq> []" and h2: "''ai'' \<noteq> []" and h3: "CHR ''.'' \<notin> set ''ai''"
    by simp_all
  have h4: "\<forall>(k', f') \<in> set KEYWORD_FOLDERS. \<not> contains k' (lower ''notes'')"
    by (simp add: KEYWORD_FOLDERS_def lower_def lower_char_def)
  have h5: "KEYWORD_FOLDERS =
      [(''invoice'', ''Invoices''), (''receipt'', ''Invoices''), (''fatura'', ''Invoices''),
       (''anki'', ''Anki''), (''course'', ''Courses''), (''blueprint'', ''Courses'')] @
      (''ai'', ''AI'') # [(''langgraph'', ''AI''), (''agent'', ''AI''), (''prompt'', ''AI''),
       (''filmmaking'', ''Media Projects''), (''presentation'', ''Presentations'')]"
    by (simp add: KEYWORD_FOLDERS_def)
  have h6: "\<forall>(k', f') \<in> set [(''invoice'', ''Invoices''), (''receipt'', ''Invoices''),
       (''fatura'', ''Invoices''), (''anki'', ''Anki''), (''course'', ''Courses''),
       (''blueprint'', ''Courses'')]. \<not> contains k' (lower ''ai'')"
    by (simp add: lower_def lower_char_def)
  have h7: "contains ''ai'' (lower ''ai'')"
    by (simp add: lower_def lower_char_def)
  show ?thesis
    using keyword_inside_extension [OF h1 h2 h3 h4 h5 h6 h7] .
qed

section \<open>Properties of the driver\<close>

subsection \<open>The file system steps\<close>

lemma mkdir_Inr:
  assumes "mkdir e folder t = Inr t1"
  shows "(\<exists>d. t1 folder = Some (Dir d)) \<and> (\<forall>x. x \<noteq> folder \<longrightarrow> t1 x = t x) \<and> \<not> is_file t folder"
  using assms by (auto simp: mkdir_def is_file_def split: option.splits node.splits)

lemma mkdir_same_files:
  assumes "mkdir e folder t = Inr t1"
  shows "is_file t1 x = is_file t x"
  using mkdir_Inr [OF assms] by (cases "x = folder") (auto simp: is_file_def)

lemma shutil_move_frame:
  assumes "shutil_move course name folder t1 = (r, t2)" and "t1 folder = Some (Dir d)"
  shows "(\<forall>x. x \<noteq> name \<and> x \<noteq> folder \<longrightarrow> t2 x = t1 x) \<and> (\<exists>d'. t2 folder = Some (Dir d'))
         \<and> (t2 name = None \<or> t2 name = t1 name)"
  using assms
  by (cases "name = folder")
     (auto simp: shutil_move_def put_def split: option.splits node.splits move_course.splits)

lemma mkdir_result:
  assumes "mkdir e folder t = Inr t1"
  shows "t1 = (case t folder of None \<Rightarrow> t(folder \<mapsto> Dir Map.empty) | Some n \<Rightarrow> t)"
  using assms by (auto simp: mkdir_def split: option.splits node.splits)

lemma mkdir_node_at:
  assumes "mkdir e folder t = Inr t1"
  shows "node_at t1 f n = node_at t f n"
  using mkdir_result [OF assms] by (auto simp: node_at_def split: option.splits)

lemma exists_in_node_at: "exists_in t f n \<longleftrightarrow> node_at t f n \<noteq> None"
  by (simp add: exists_in_def node_at_def split: option.splits node.splits)

lemma shutil_move_raises:
  assumes "t1 name = Some (File content)" and "t1 folder = Some (Dir d)"
    and "course \<in> {CopyRefused err, CopyCutShort k err, UnlinkRefused err}"
  shows "shutil_move course name folder t1 =
           (Some err,
            case left_behind course content of
              None \<Rightarrow> t1
            | Some c \<Rightarrow> t1(folder \<mapsto> Dir (d(name \<mapsto> File c))))"
  using assms by (auto simp: shutil_move_def put_def left_behind_def)

lemma shutil_move_line:
  assumes "tr name = Some (File content)"
  shows "(case shutil_move course name folder tr of
            (None, t2) \<Rightarrow> Moved name folder
          | (Some err, t2) \<Rightarrow> ErrorMoving name err)
         = (case course of
              Renamed \<Rightarrow> Moved name folder
            | Copied \<Rightarrow> Moved name folder
            | CopyRefused err \<Rightarrow> ErrorMoving name err
            | CopyCutShort k err \<Rightarrow> ErrorMoving name err
            | UnlinkRefused err \<Rightarrow> ErrorMoving name err)"
  using assms by (cases course) (simp_all add: shutil_move_def)

lemma shutil_move_node_at:
  assumes "shutil_move course name folder t1 = (r, t2)" and "n \<noteq> name"
  shows "node_at t2 f n = node_at t1 f n"
  using assms
  by (auto simp: shutil_move_def put_def node_at_def
      split: option.splits node.splits move_course.splits if_splits)

subsection \<open>The loop body\<close>

lemma loop_body_files:
  assumes "loop_body e home name t = (r, ls, t1)"
  shows "(\<forall>x. x \<noteq> name \<longrightarrow> is_file t1 x = is_file t x) \<and> (is_file t1 name \<longrightarrow> is_file t name)"
proof (cases "is_file t name")
  case False
  with assms show ?thesis by (simp add: loop_body_def)
next
  case True
  let ?folder = "last (get_target_folder home name)"
  show ?thesis
  proof (cases "mkdir e ?folder t")
    case (Inl err)
    with True assms show ?thesis by (simp add: loop_body_def Let_def)
  next
    case (Inr tm)
    note same = mkdir_same_files [OF Inr]
    from mkdir_Inr [OF Inr] obtain d where d: "tm ?folder = Some (Dir d)" by blast
    show ?thesis
    proof (cases "exists_in tm ?folder name")
      case conflict: True
      with True Inr assms have "t1 = tm" by (simp add: loop_body_def Let_def)
      then show ?thesis using same by simp
    next
      case free: False
      obtain r2 t2 where mv: "shutil_move (move_course e name) name ?folder tm = (r2, t2)"
        by (cases "shutil_move (move_course e name) name ?folder tm") auto
      with True Inr free assms have "t1 = t2"
        by (cases r2) (simp_all add: loop_body_def Let_def)
      moreover note fr = shutil_move_frame [OF mv d]
      ultimately have "\<forall>x. x \<noteq> name \<longrightarrow> is_file t1 x = is_file tm x"
        using d by (auto simp: is_file_def)
      moreover have "is_file t1 name \<longrightarrow> is_file tm name"
        using fr \<open>t1 = t2\<close> by (auto simp: is_file_def)
      ultimately show ?thesis using same by simp
    qed
  qed
qed

lemma loop_body_skips: "\<not> is_file t name \<Longrightarrow> loop_body e home name t = (None, [], t)"
  by (simp add: loop_body_def)

lemma loop_body_mkdir_raises:
  assumes "is_file t name" and "mkdir e (last (get_target_folder home name)) t = Inl err"
  shows "loop_body e home name t = (Some err, [], t)"
  using assms by (simp add: loop_body_def Let_def)

lemma source_after_mkdir:
  assumes "t name = Some (File content)" and "mkdir e folder t = Inr t1"
  shows "name \<noteq> folder \<and> t1 name = Some (File content)"
proof -
  from mkdir_Inr [OF assms(2)] have "\<forall>x. x \<noteq> folder \<longrightarrow> t1 x = t x" and "\<not> is_file t folder"
    by blast+
  moreover have "is_file t name" using assms(1) by (simp add: is_file_def)
  ultimately show ?thesis using assms(1) by auto
qed

lemma loop_body_conflict:
  assumes "t name = Some (File content)"
    and "mkdir e (last (get_target_folder home name)) t = Inr t1"
    and "exists_in t1 (last (get_target_folder home name)) name"
  shows "loop_body e home name t
           = (None, [AlreadyExists (get_target_folder home name @ [name])], t1)"
  using assms by (simp add: loop_body_def Let_def is_file_def)

lemma loop_body_move_raises:
  assumes "t name = Some (File content)"
    and "mkdir e (last (get_target_folder home name)) t = Inr t1"
    and "t1 (last (get_target_folder home name)) = Some (Dir d)"
    and "d name = None"
    and "move_course e name \<in> {CopyRefused err, CopyCutShort k err, UnlinkRefused err}"
  shows "loop_body e home name t =
           (None, [ErrorMoving name err],
            case left_behind (move_course e name) content of
              None \<Rightarrow> t1
            | Some c \<Rightarrow> t1(last (get_target_folder home name) \<mapsto> Dir (d(name \<mapsto> File c))))"
proof -
  let ?folder = "last (get_target_folder home name)"
  have src: "t1 name = Some (File content)"
    using source_after_mkdir [OF assms(1,2)] by simp
  have free: "\<not> exists_in t1 ?folder name"
    using assms(3,4) by (simp add: exists_in_def)
  have regular: "is_file t name"
    using assms(1) by (simp add: is_file_def)
  from shutil_move_raises [OF src assms(3,5)] regular assms(2) free
  show ?thesis by (simp add: loop_body_def Let_def)
qed

lemma loop_body_outcome:
  assumes "is_file t name"
    and "mkdir e (last (get_target_folder home name)) t = Inr t1"
  shows "\<exists>t2. loop_body e home name t = (None, [outcome_line e home t name], t2)"
proof -
  let ?folder = "last (get_target_folder home name)"
  obtain content where content: "t name = Some (File content)"
    using assms(1) by (auto simp: is_file_def split: option.splits node.splits)
  have src: "t1 name = Some (File content)"
    using source_after_mkdir [OF content assms(2)] by simp
  have seen: "exists_in t1 ?folder name \<longleftrightarrow> node_at t ?folder name \<noteq> None"
    using mkdir_node_at [OF assms(2)] by (simp add: exists_in_node_at)
  show ?thesis
  proof (cases "exists_in t1 ?folder name")
    case True
    with seen assms show ?thesis
      by (simp add: loop_body_def Let_def outcome_line_def)
  next
    case False
    obtain r t2 where mv: "shutil_move (move_course e name) name ?folder t1 = (r, t2)"
      by (cases "shutil_move (move_course e name) name ?folder t1") auto
    have "(case (r, t2) of (None, t2) \<Rightarrow> Moved name ?folder
            | (Some err, t2) \<Rightarrow> ErrorMoving name err) = outcome_line e home t name"
      using shutil_move_line [where tr = t1 and course = "move_course e name"
          and folder = ?folder, OF src] False seen
      unfolding mv by (simp add: outcome_line_def)
    with False assms mv show ?thesis
      by (cases r) (simp_all add: loop_body_def Let_def)
  qed
qed

lemma loop_body_node_at:
  assumes "loop_body e home name t = (r, ls, t2)" and "n \<noteq> name"
  shows "node_at t2 f n = node_at t f n"
proof (cases "is_file t name")
  case False
  with assms show ?thesis by (simp add: loop_body_def)
next
  case True
  let ?folder = "last (get_target_folder home name)"
  show ?thesis
  proof (cases "mkdir e ?folder t")
    case (Inl err)
    with True assms show ?thesis by (simp add: loop_body_def Let_def)
  next
    case (Inr t1)
    note made = mkdir_node_at [OF Inr, of f n]
    show ?thesis
    proof (cases "exists_in t1 ?folder name")
      case conflict: True
      with True Inr assms have "t2 = t1" by (simp add: loop_body_def Let_def)
      with made show ?thesis by simp
    next
      case free: False
      obtain r2 t3 where mv: "shutil_move (move_course e name) name ?folder t1 = (r2, t3)"
        by (cases "shutil_move (move_course e name) name ?folder t1") auto
      with True Inr free assms(1) have "t2 = t3"
        by (cases r2) (simp_all add: loop_body_def Let_def)
      with shutil_move_node_at [OF mv assms(2), of f] made show ?thesis by simp
    qed
  qed
qed

lemma outcome_line_later:
  assumes "loop_body e home name t = (r, ls, t2)" and "n \<noteq> name"
  shows "outcome_line e home t2 n = outcome_line e home t n"
  using loop_body_node_at [OF assms] by (simp add: outcome_line_def)

subsection \<open>The loop\<close>

lemma for_loop_append:
  assumes "for_loop e home xs t = (Completed, ls0, t0)"
  shows "for_loop e home (xs @ ys) t =
           (case for_loop e home ys t0 of (st, ls, t') \<Rightarrow> (st, ls0 @ ls, t'))"
  using assms
proof (induction xs arbitrary: t ls0)
  case Nil
  then show ?case by (simp split: prod.splits)
next
  case (Cons x xs)
  obtain r ls1 t1 where body: "loop_body e home x t = (r, ls1, t1)"
    by (cases "loop_body e home x t") auto
  obtain st2 ls2 t2 where rest: "for_loop e home xs t1 = (st2, ls2, t2)"
    by (cases "for_loop e home xs t1") auto
  from Cons.prems body rest have r: "r = None" and st2: "st2 = Completed"
    and ls0: "ls0 = ls1 @ ls2" and t0: "t2 = t0"
    by (cases r; simp)+
  from Cons.IH [of t1 ls2] rest st2 t0
  have "for_loop e home (xs @ ys) t1 =
          (case for_loop e home ys t0 of (st, ls, t') \<Rightarrow> (st, ls2 @ ls, t'))"
    by simp
  with body r ls0 show ?case by (simp split: prod.splits)
qed

lemma for_loop_lines:
  assumes "distinct names" and "for_loop e home names t = (st, ls, t')"
  shows "\<exists>processed. ls = map (outcome_line e home t) processed \<and>
           ((st = Completed \<and> processed = filter (is_file t) names) \<or>
            (\<exists>err name rest. st = Raised err \<and>
               filter (is_file t) names = processed @ name # rest))"
  using assms
proof (induction names arbitrary: t st ls t')
  case Nil
  then show ?case by simp
next
  case (Cons name names)
  have fresh: "name \<notin> set names" and rest_distinct: "distinct names"
    using Cons.prems(1) by simp_all
  show ?case
  proof (cases "is_file t name")
    case False
    with Cons.prems(2) have "for_loop e home names t = (st, ls, t')"
      by (simp add: loop_body_skips split: prod.splits)
    from Cons.IH [OF rest_distinct this] False show ?thesis by simp
  next
    case True
    let ?folder = "last (get_target_folder home name)"
    show ?thesis
    proof (cases "mkdir e ?folder t")
      case (Inl err)
      with True Cons.prems(2) have "st = Raised err" and "ls = []"
        by (simp_all add: loop_body_mkdir_raises)
      moreover have "filter (is_file t) (name # names) = [] @ name # filter (is_file t) names"
        using True by simp
      ultimately show ?thesis by (intro exI [of _ "[]"]) auto
    next
      case (Inr t1)
      from loop_body_outcome [OF True Inr]
      obtain t2 where body: "loop_body e home name t = (None, [outcome_line e home t name], t2)"
        by blast
      obtain st2 ls2 t3 where rest: "for_loop e home names t2 = (st2, ls2, t3)"
        by (cases "for_loop e home names t2") auto
      with body Cons.prems(2) have st: "st = st2" and ls: "ls = outcome_line e home t name # ls2"
        by simp_all
      from Cons.IH [OF rest_distinct rest]
      obtain processed where lines: "ls2 = map (outcome_line e home t2) processed"
        and ends: "(st2 = Completed \<and> processed = filter (is_file t2) names) \<or>
            (\<exists>err n rest. st2 = Raised err \<and>
               filter (is_file t2) names = processed @ n # rest)"
        by blast
      have same_files: "filter (is_file t2) names = filter (is_file t) names"
        using loop_body_files [OF body] fresh by (intro filter_cong) auto
      have "set processed \<subseteq> set names"
      proof -
        from ends have "\<exists>tail. filter (is_file t2) names = processed @ tail"
          by auto
        then obtain tail where "filter (is_file t2) names = processed @ tail" ..
        then have "set processed \<subseteq> set (filter (is_file t2) names)"
          by simp
        then show ?thesis by auto
      qed
      then have "\<forall>n \<in> set processed. n \<noteq> name"
        using fresh by auto
      then have "map (outcome_line e home t2) processed = map (outcome_line e home t) processed"
        using outcome_line_later [OF body] by (intro map_cong) auto
      with lines ls have "ls = map (outcome_line e home t) (name # processed)"
        by simp
      moreover have "(st = Completed \<and> name # processed = filter (is_file t) (name # names)) \<or>
            (\<exists>err n rest. st = Raised err \<and>
               filter (is_file t) (name # names) = (name # processed) @ n # rest)"
        using ends True st same_files by auto
      ultimately show ?thesis by blast
    qed
  qed
qed

subsection \<open>The claims about \<^verbatim>\<open>organize_downloads\<close>\<close>

lemmas classify_defs =
  get_target_folder_def DOWNLOADS_DIR_def KEYWORD_FOLDERS_def CATEGORY_MAP_def
  lower_def lower_char_def suffix_of_def rfind_def strip_dots_def

lemmas driver_defs =
  organize_downloads_def loop_body_def is_file_def mkdir_def exists_in_def shutil_move_def
  put_def node_at_def

lemmas demo_defs = demo_env_def demo_tree_def demo_home_def

text \<open>C3. If the target path of a regular file exists when the loop body starts on
  it, the body prints the conflict line naming that path, raises nothing and leaves the whole
  tree as it was: the node at the target and the source file are untouched.\<close>

theorem existing_target_is_skipped:
  assumes "is_file t name"
    and "exists_in t (last (get_target_folder home name)) name"
  shows "loop_body e home name t =
           (None, [AlreadyExists (get_target_folder home name @ [name])], t)"
proof -
  obtain d where "t (last (get_target_folder home name)) = Some (Dir d)"
    using assms(2) by (auto simp: exists_in_def split: option.splits node.splits)
  then have "mkdir e (last (get_target_folder home name)) t = Inr t"
    by (simp add: mkdir_def)
  with assms show ?thesis by (simp add: loop_body_def Let_def)
qed

theorem existing_target_is_skipped_witness:
  "loop_body demo_env demo_home ''invoice_march.pdf'' demo_tree =
     (None, [AlreadyExists [''home'', ''user'', ''Downloads'', ''Invoices'', ''invoice_march.pdf'']],
      demo_tree)"
proof -
  have target: "get_target_folder demo_home ''invoice_march.pdf''
      = [''home'', ''user'', ''Downloads'', ''Invoices'']"
    by (simp add: classify_defs demo_defs)
  have h1: "is_file demo_tree ''invoice_march.pdf''"
    by (simp add: is_file_def demo_tree_def)
  have h2: "exists_in demo_tree (last (get_target_folder demo_home ''invoice_march.pdf''))
      ''invoice_march.pdf''"
    unfolding target by (simp add: exists_in_def demo_tree_def)
  show ?thesis
    using existing_target_is_skipped [OF h1 h2, of demo_env] unfolding target by simp
qed

text \<open>C4, as stated, fails. In the sample run the move of \<^verbatim>\<open>plan.pdf\<close> raises and
  the error line is printed, yet the target path, absent before, now holds the first two
  characters of the file: a partial copy stays behind.  And when the target folder cannot
  be created, the file is not moved either, but no error line is printed for it: the
  exception leaves the loop body.\<close>

theorem failed_move_counterexample:
  "fst (snd (loop_body demo_env demo_home ''plan.pdf'' demo_tree))
     = [ErrorMoving ''plan.pdf'' ''No space left on device''] \<and>
   node_at demo_tree ''PDFs'' ''plan.pdf'' = None \<and>
   node_at (snd (snd (loop_body demo_env demo_home ''plan.pdf'' demo_tree))) ''PDFs'' ''plan.pdf''
     = Some (File ''pl'') \<and>
   loop_body blocked_env demo_home ''plan.pdf'' demo_tree
     = (Some ''Permission denied'', [], demo_tree)"
  by (simp add: classify_defs driver_defs demo_defs blocked_env_def)

text \<open>C4, amended. Let the target folder of a regular file be there after
  \<^verbatim>\<open>mkdir\<close> (found, or created empty) and hold nothing under the name of the file.  If the
  move then raises, the loop body prints the error line carrying the text of the exception
  and raises nothing; the source file is still at its place with its content; nothing is
  cleaned up: the tree is the one after \<^verbatim>\<open>mkdir\<close>, except that the target path holds
  what the move left there, which is nothing only when the copy was refused at the
  start.\<close>

theorem failed_move_keeps_source:
  assumes "t name = Some (File content)"
    and "mkdir e (last (get_target_folder home name)) t = Inr t1"
    and "\<not> exists_in t1 (last (get_target_folder home name)) name"
    and "move_course e name \<in> {CopyRefused err, CopyCutShort k err, UnlinkRefused err}"
  shows "\<exists>d t2.
           t1 = (case t (last (get_target_folder home name)) of
                   None \<Rightarrow> t(last (get_target_folder home name) \<mapsto> Dir Map.empty)
                 | Some n \<Rightarrow> t) \<and>
           t1 (last (get_target_folder home name)) = Some (Dir d) \<and>
           loop_body e home name t = (None, [ErrorMoving name err], t2) \<and>
           t2 name = Some (File content) \<and>
           t2 = (case left_behind (move_course e name) content of
                   None \<Rightarrow> t1
                 | Some c \<Rightarrow>
                     t1(last (get_target_folder home name) \<mapsto> Dir (d(name \<mapsto> File c))))"
proof -
  let ?folder = "last (get_target_folder home name)"
  from mkdir_Inr [OF assms(2)] obtain d where d: "t1 ?folder = Some (Dir d)"
    by blast
  have free: "d name = None"
    using assms(3) d by (simp add: exists_in_def)
  have src: "name \<noteq> ?folder" "t1 name = Some (File content)"
    using source_after_mkdir [OF assms(1,2)] by simp_all
  let ?t2 = "case left_behind (move_course e name) content of
               None \<Rightarrow> t1
             | Some c \<Rightarrow> t1(?folder \<mapsto> Dir (d(name \<mapsto> File c)))"
  have "loop_body e home name t = (None, [ErrorMoving name err], ?t2)"
    using loop_body_move_raises [OF assms(1,2) d free assms(4)] .
  moreover have "?t2 name = Some (File content)"
    using src by (simp split: option.splits)
  ultimately show ?thesis
    using mkdir_result [OF assms(2)] d by blast
qed

theorem failed_move_keeps_source_witness:
  "\<exists>t2. loop_body demo_env demo_home ''plan.pdf'' demo_tree
           = (None, [ErrorMoving ''plan.pdf'' ''No space left on device''], t2) \<and>
        t2 ''plan.pdf'' = Some (File ''plan'') \<and>
        t2 = demo_tree(''PDFs'' \<mapsto> Dir [''plan.pdf'' \<mapsto> File ''pl''])"
proof -
  have target: "last (get_target_folder demo_home ''plan.pdf'') = ''PDFs''"
    by (simp add: classify_defs demo_defs)
  have h1: "demo_tree ''plan.pdf'' = Some (File ''plan'')"
    by (simp add: demo_tree_def)
  have h2: "mkdir demo_env (last (get_target_folder demo_home ''plan.pdf'')) demo_tree
      = Inr (demo_tree(''PDFs'' \<mapsto> Dir Map.empty))"
    unfolding target by (simp add: mkdir_def demo_defs)
  have h3: "\<not> exists_in (demo_tree(''PDFs'' \<mapsto> Dir Map.empty))
      (last (get_target_folder demo_home ''plan.pdf'')) ''plan.pdf''"
    unfolding target by (simp add: exists_in_def)
  have h4: "move_course demo_env ''plan.pdf'' \<in>
      {CopyRefused ''No space left on device'', CopyCutShort 2 ''No space left on device'',
       UnlinkRefused ''No space left on device''}"
    by (simp add: demo_env_def)
  have left: "left_behind (move_course demo_env ''plan.pdf'') ''plan'' = Some ''pl''"
    by (simp add: left_behind_def demo_env_def)
  from failed_move_keeps_source [OF h1 h2 h3 h4]
  show ?thesis unfolding target left by auto
qed

text \<open>C5, as stated, fails. When no new folder can be created in the sample
  directory, the conflict of \<^verbatim>\<open>invoice_march.pdf\<close> is reported, but the failure to create
  the folder for \<^verbatim>\<open>photo.png\<close> is a per-file error that ends the run: no line is printed
  for \<^verbatim>\<open>photo.png\<close>, and \<^verbatim>\<open>plan.pdf\<close>, a regular file later in the listing, is never
  processed.\<close>

theorem failed_mkdir_aborts_counterexample:
  "organize_downloads blocked_env demo_home demo_tree
     = (Raised ''Permission denied'',
        [Organizing [''home'', ''user'', ''Downloads''],
         AlreadyExists [''home'', ''user'', ''Downloads'', ''Invoices'', ''invoice_march.pdf'']],
        demo_tree) \<and>
   listdir blocked_env = Inr [''invoice_march.pdf'', ''photo.png'', ''Invoices'', ''plan.pdf''] \<and>
   is_file demo_tree ''photo.png'' \<and> is_file demo_tree ''plan.pdf''"
  by (simp add: classify_defs driver_defs demo_defs blocked_env_def)

text \<open>C5, amended. A conflict and a move that raises never end the run.  Let the
  files listed before some regular file be done without an exception, and let the target
  folder of that file be there after \<^verbatim>\<open>mkdir\<close>.  If the target path exists, the whole run is:
  the header, the lines of the files before, the conflict line naming the target path,
  and then the run of the loop over the remaining files from the same tree.  If the
  target path is absent and the move raises, the whole run is: the header, the lines of
  the files before, the error line carrying the text of the exception, and then the run
  of the loop over the remaining files from the tree the failed move left.  In both cases
  the run ends as the loop over the remaining files ends.\<close>

theorem conflict_or_failed_move_continues:
  assumes "listdir e = Inr (before @ name # rest)"
    and "for_loop e home before t = (Completed, ls0, t0)"
    and "t0 name = Some (File content)"
    and "mkdir e (last (get_target_folder home name)) t0 = Inr t1"
    and "t1 (last (get_target_folder home name)) = Some (Dir d)"
  shows "(d name \<noteq> None \<longrightarrow>
            organize_downloads e home t =
              (case for_loop e home rest t1 of
                 (st, ls, t') \<Rightarrow>
                   (st,
                    Organizing (DOWNLOADS_DIR home) # ls0 @
                      AlreadyExists (get_target_folder home name @ [name]) # ls,
                    t'))) \<and>
         (d name = None \<and>
          move_course e name \<in> {CopyRefused err, CopyCutShort k err, UnlinkRefused err} \<longrightarrow>
            organize_downloads e home t =
              (case for_loop e home rest
                      (case left_behind (move_course e name) content of
                         None \<Rightarrow> t1
                       | Some c \<Rightarrow>
                           t1(last (get_target_folder home name) \<mapsto> Dir (d(name \<mapsto> File c)))) of
                 (st, ls, t') \<Rightarrow>
                   (st, Organizing (DOWNLOADS_DIR home) # ls0 @ ErrorMoving name err # ls, t')))"
proof -
  let ?folder = "last (get_target_folder home name)"
  have run: "organize_downloads e home t =
      (case for_loop e home (name # rest) t0 of
         (st, ls, t') \<Rightarrow> (st, Organizing (DOWNLOADS_DIR home) # ls0 @ ls, t'))"
    using assms(1) for_loop_append [OF assms(2), of "name # rest"]
    by (simp add: organize_downloads_def split: prod.splits)
  have conflict: "d name \<noteq> None \<Longrightarrow>
      loop_body e home name t0 = (None, [AlreadyExists (get_target_folder home name @ [name])], t1)"
    using loop_body_conflict [OF assms(3,4)] assms(5) by (simp add: exists_in_def)
  have failure: "d name = None \<Longrightarrow>
      move_course e name \<in> {CopyRefused err, CopyCutShort k err, UnlinkRefused err} \<Longrightarrow>
      loop_body e home name t0 =
        (None, [ErrorMoving name err],
         case left_behind (move_course e name) content of
           None \<Rightarrow> t1
         | Some c \<Rightarrow> t1(?folder \<mapsto> Dir (d(name \<mapsto> File c))))"
    using loop_body_move_raises [OF assms(3,4,5)] by simp
  show ?thesis
  proof (intro conjI impI)
    assume "d name \<noteq> None"
    from conflict [OF this] show "organize_downloads e home t =
        (case for_loop e home rest t1 of
           (st, ls, t') \<Rightarrow>
             (st,
              Organizing (DOWNLOADS_DIR home) # ls0 @
                AlreadyExists (get_target_folder home name @ [name]) # ls,
              t'))"
      unfolding run by (simp split: prod.splits)
  next
    assume "d name = None \<and>
      move_course e name \<in> {CopyRefused err, CopyCutShort k err, UnlinkRefused err}"
    then have "loop_body e home name t0 =
        (None, [ErrorMoving name err],
         case left_behind (move_course e name) content of
           None \<Rightarrow> t1
         | Some c \<Rightarrow> t1(?folder \<mapsto> Dir (d(name \<mapsto> File c))))"
      using failure by blast
    then show "organize_downloads e home t =
        (case for_loop e home rest
                (case left_behind (move_course e name) content of
                   None \<Rightarrow> t1
                 | Some c \<Rightarrow> t1(?folder \<mapsto> Dir (d(name \<mapsto> File c)))) of
           (st, ls, t') \<Rightarrow>
             (st, Organizing (DOWNLOADS_DIR home) # ls0 @ ErrorMoving name err # ls, t'))"
      unfolding run by (simp split: prod.splits)
  qed
qed

theorem conflict_or_failed_move_continues_witness:
  "fst (organize_downloads plan_first_env demo_home demo_tree) = Completed \<and>
   fst (snd (organize_downloads plan_first_env demo_home demo_tree))
     = [Organizing [''home'', ''user'', ''Downloads''],
        ErrorMoving ''plan.pdf'' ''No space left on device'',
        Moved ''photo.png'' ''Images'']"
proof -
  have target: "last (get_target_folder demo_home ''plan.pdf'') = ''PDFs''"
    by (simp add: classify_defs demo_defs)
  have h1: "listdir plan_first_env = Inr ([] @ ''plan.pdf'' # [''photo.png''])"
    by (simp add: plan_first_env_def)
  have h2: "for_loop plan_first_env demo_home [] demo_tree = (Completed, [], demo_tree)"
    by simp
  have h3: "demo_tree ''plan.pdf'' = Some (File ''plan'')"
    by (simp add: demo_tree_def)
  have h4: "mkdir plan_first_env (last (get_target_folder demo_home ''plan.pdf'')) demo_tree
      = Inr (demo_tree(''PDFs'' \<mapsto> Dir Map.empty))"
    unfolding target by (simp add: mkdir_def demo_defs plan_first_env_def)
  have h5: "(demo_tree(''PDFs'' \<mapsto> Dir Map.empty))
      (last (get_target_folder demo_home ''plan.pdf'')) = Some (Dir Map.empty)"
    unfolding target by simp
  have course: "move_course plan_first_env ''plan.pdf''
      = CopyCutShort 2 ''No space left on device''"
    by (simp add: plan_first_env_def demo_env_def)
  have run: "organize_downloads plan_first_env demo_home demo_tree =
      (case for_loop plan_first_env demo_home [''photo.png'']
              (demo_tree(''PDFs'' \<mapsto> Dir [''plan.pdf'' \<mapsto> File ''pl''])) of
         (st, ls, t') \<Rightarrow>
           (st,
            Organizing (DOWNLOADS_DIR demo_home) # [] @
              ErrorMoving ''plan.pdf'' ''No space left on device'' # ls,
            t'))"
    using conflict_or_failed_move_continues [OF h1 h2 h3 h4 h5, of "''No space left on device''" 2]
    unfolding target course by (simp add: left_behind_def)
  show ?thesis
    unfolding run
    by (simp add: classify_defs loop_body_def is_file_def mkdir_def exists_in_def
        shutil_move_def put_def demo_defs plan_first_env_def split: prod.splits)
qed

text \<open>C6, as stated, fails. The sample run skips one file on a conflict, moves one
  and fails on one.  All it prints is the header and one line for each of the three files,
  as the printed text shows: there are no counts and no summary (and the function returns
  \<^verbatim>\<open>None\<close>).\<close>

theorem prints_no_counts_counterexample:
  "fst (organize_downloads demo_env demo_home demo_tree) = Completed \<and>
   fst (snd (organize_downloads demo_env demo_home demo_tree))
     = [Organizing [''home'', ''user'', ''Downloads''],
        AlreadyExists [''home'', ''user'', ''Downloads'', ''Invoices'', ''invoice_march.pdf''],
        Moved ''photo.png'' ''Images'',
        ErrorMoving ''plan.pdf'' ''No space left on device''] \<and>
   map text_of (fst (snd (organize_downloads demo_env demo_home demo_tree)))
     = [''[bold yellow]Organizing files in /home/user/Downloads...[/bold yellow]'',
        ''[red]File already exists:[/red] /home/user/Downloads/Invoices/invoice_march.pdf'',
        ''[green]Moved:[/green] photo.png -> Images'',
        ''[red]Error moving plan.pdf:[/red] No space left on device'']"
proof -
  have run: "fst (organize_downloads demo_env demo_home demo_tree) = Completed"
    "fst (snd (organize_downloads demo_env demo_home demo_tree))
       = [Organizing [''home'', ''user'', ''Downloads''],
          AlreadyExists [''home'', ''user'', ''Downloads'', ''Invoices'', ''invoice_march.pdf''],
          Moved ''photo.png'' ''Images'',
          ErrorMoving ''plan.pdf'' ''No space left on device'']"
    by (simp_all add: classify_defs driver_defs demo_defs)
  show ?thesis
    unfolding run by (simp add: str_path_def)
qed

text \<open>C6, amended. Every run prints the header and after it exactly one line for
  each regular file it processed, in the order of the listing, and nothing else: no
  counts, no summary.  The line of a file is the conflict line naming its target path when
  that path existed, the line of its move when the move went through, the error line when
  the move raised.  A run that completes has processed every regular file of the listing;
  a run that an exception ends after a successful listing has processed the regular files
  before some regular file of the listing, and printed nothing for that file or a later
  one; a run whose listing raised has processed none.  The listing is taken to name each
  entry once.\<close>

theorem one_line_per_file_and_no_counts:
  assumes "distinct (case listdir e of Inl err \<Rightarrow> [] | Inr names \<Rightarrow> names)"
  shows "\<exists>st ls t' processed.
           organize_downloads e home t = (st, Organizing (DOWNLOADS_DIR home) # ls, t') \<and>
           ls = map (outcome_line e home t) processed \<and>
           ((\<exists>names. listdir e = Inr names \<and> st = Completed \<and>
               processed = filter (is_file t) names) \<or>
            (\<exists>names err name rest. listdir e = Inr names \<and> st = Raised err \<and>
               filter (is_file t) names = processed @ name # rest) \<or>
            (\<exists>err. listdir e = Inl err \<and> st = Raised err \<and> processed = []))"
proof (cases "listdir e")
  case (Inl err)
  then have "organize_downloads e home t = (Raised err, Organizing (DOWNLOADS_DIR home) # [], t)"
    by (simp add: organize_downloads_def)
  with Inl show ?thesis by (intro exI [of _ "[]"] exI [of _ "Raised err"] exI [of _ t]) simp
next
  case (Inr names)
  then have distinct: "distinct names"
    using assms by simp
  obtain st ls t' where loop: "for_loop e home names t = (st, ls, t')"
    by (cases "for_loop e home names t") auto
  from for_loop_lines [OF distinct loop]
  obtain processed where lines: "ls = map (outcome_line e home t) processed"
    and ends: "(st = Completed \<and> processed = filter (is_file t) names) \<or>
          (\<exists>err name rest. st = Raised err \<and>
             filter (is_file t) names = processed @ name # rest)"
    by blast
  have "organize_downloads e home t = (st, Organizing (DOWNLOADS_DIR home) # ls, t')"
    using Inr loop by (simp add: organize_downloads_def)
  with lines ends Inr show ?thesis by blast
qed

theorem one_line_per_file_and_no_counts_witness:
  "\<exists>st ls t'.
     organize_downloads demo_env demo_home demo_tree
       = (st, Organizing (DOWNLOADS_DIR demo_home) # ls, t') \<and>
     st = Completed \<and>
     ls = map (outcome_line demo_env demo_home demo_tree)
            [''invoice_march.pdf'', ''photo.png'', ''plan.pdf'']"
proof -
  have names: "listdir demo_env
      = Inr [''invoice_march.pdf'', ''photo.png'', ''Invoices'', ''plan.pdf'']"
    by (simp add: demo_env_def)
  have h: "distinct (case listdir demo_env of Inl err \<Rightarrow> [] | Inr names \<Rightarrow> names)"
    unfolding names by simp
  have files: "filter (is_file demo_tree)
      [''invoice_march.pdf'', ''photo.png'', ''Invoices'', ''plan.pdf'']
      = [''invoice_march.pdf'', ''photo.png'', ''plan.pdf'']"
    by (simp add: is_file_def demo_tree_def)
  have completed: "fst (organize_downloads demo_env demo_home demo_tree) = Completed"
    by (simp add: classify_defs driver_defs demo_defs)
  from one_line_per_file_and_no_counts [OF h, of demo_home demo_tree]
  obtain st ls t' processed where
    run: "organize_downloads demo_env demo_home demo_tree
            = (st, Organizing (DOWNLOADS_DIR demo_home) # ls, t')"
    and lines: "ls = map (outcome_line demo_env demo_home demo_tree) processed"
    and ends: "(\<exists>names. listdir demo_env = Inr names \<and> st = Completed \<and>
               processed = filter (is_file demo_tree) names) \<or>
            (\<exists>names err name rest. listdir demo_env = Inr names \<and> st = Raised err \<and>
               filter (is_file demo_tree) names = processed @ name # rest) \<or>
            (\<exists>err. listdir demo_env = Inl err \<and> st = Raised err \<and> processed = [])"
    by blast
  have st: "st = Completed"
    using run completed by simp
  with ends names files have "processed = [''invoice_march.pdf'', ''photo.png'', ''plan.pdf'']"
    by auto
  with run lines st show ?thesis by blast
qed

text \<open>C7. If listing the downloads directory raises, the run ends with that
  exception right after the header line: no outcome line is printed and the tree is as it
  was.\<close>

theorem enumeration_failure_aborts:
  assumes "listdir e = Inl err"
  shows "organize_downloads e home t = (Raised err, [Organizing (DOWNLOADS_DIR home)], t)"
  using assms by (simp add: organize_downloads_def)

theorem enumeration_failure_aborts_witness:
  "organize_downloads (demo_env\<lparr>listdir := Inl ''FileNotFoundError''\<rparr>) demo_home demo_tree
     = (Raised ''FileNotFoundError'', [Organizing [''home'', ''user'', ''Downloads'']], demo_tree)"
proof -
  have h: "listdir (demo_env\<lparr>listdir := Inl ''FileNotFoundError''\<rparr>) = Inl ''FileNotFoundError''"
    by simp
  show ?thesis
    using enumeration_failure_aborts [OF h, of demo_home demo_tree]
    by (simp add: DOWNLOADS_DIR_def demo_home_def)
qed

end
